theory Spec2Isabelle
  imports Complex_Main
begin

section \<open>Token cache of the authentication client (dist/authentication.js)\<close>

text \<open>
  JavaScript numbers that hold timestamps and second counts are modelled as \<open>int\<close>
  (milliseconds since the epoch, as \<open>Date.now()\<close> returns them). \<open>Number.MAX_VALUE\<close>
  is the largest finite double, the integer \<open>2^1024 - 2^971\<close>.
\<close>

definition MAX_VALUE :: int where
  "MAX_VALUE = 2 ^ 1024 - 2 ^ 971"

definition RootPath_auth :: string where
  "RootPath_auth = ''authentication/v1''"

text \<open>\<open>Array.prototype.join\<close> on an array of strings.\<close>

fun join :: "string \<Rightarrow> string list \<Rightarrow> string" where
  "join sep [] = []"
| "join sep [x] = x"
| "join sep (x # y # ys) = x @ sep @ join sep (y # ys)"

text \<open>A thrown \<open>Error\<close> or a rejection reason, with its message.\<close>

datatype error = Error string

text \<open>A promise is pending, fulfilled with a value, or rejected with an error.\<close>

datatype 'a promise_state = Pending | Fulfilled 'a | Rejected error

text \<open>The object stored in \<open>_cached[key]\<close>: \<open>{ expires_at, promise }\<close>.\<close>

record cache_entry =
  expires_at :: int
  promise :: "string promise_state"

text \<open>The body of a successful token response (\<open>resp.data\<close>).\<close>

record token_response =
  data_access_token :: string
  data_expires_in :: int

text \<open>What \<open>authenticate\<close> resolves to: \<open>{ access_token, expires_in }\<close>.\<close>

record two_legged_token =
  access_token :: string
  expires_in :: int

text \<open>
  One call of \<open>this.post('authenticate', params)\<close>: the URL, the form parameters, and the
  closure of the callback chained on it (the \<open>key\<close> it captured, and the cache entry whose
  \<open>promise\<close> field holds the chained promise).
\<close>

record post_request =
  post_url :: string
  post_params :: "(string \<times> string) list"
  then_key :: string
  then_entry :: nat

text \<open>
  The client. Cache entries are mutable objects shared between \<open>_cached\<close> and the closures
  that captured them, so they live in a store (\<open>objects\<close>, a reference is an index) and
  \<open>cached\<close> maps a key to a reference. \<open>posts\<close> logs every token request issued.
  Each promise returned by \<open>authenticate\<close> is named by a ticket: \<open>reactions\<close> holds the
  callbacks \<open>(token) => ({...})\<close> still waiting on an entry's promise (ticket and captured
  entry), \<open>results\<close> what the returned promise settled to.
\<close>

record authentication_client =
  client_id :: string
  client_secret :: string
  auth_host :: string
  cached :: "string \<rightharpoonup> nat"
  objects :: "cache_entry list"
  posts :: "post_request list"
  reactions :: "(nat \<times> nat) list"
  results :: "nat \<rightharpoonup> (error + two_legged_token)"
  tickets :: nat

definition DefaultHost :: string where
  "DefaultHost = ''https://developer.api.autodesk.com''"

text \<open>The constructor; \<open>host\<close> takes its default when the argument is \<open>undefined\<close>.\<close>

definition AuthenticationClient :: "string \<Rightarrow> string \<Rightarrow> string option \<Rightarrow> authentication_client" where
  "AuthenticationClient cid secret host_arg =
     \<lparr>client_id = cid, client_secret = secret,
      auth_host = (case host_arg of None \<Rightarrow> DefaultHost | Some h \<Rightarrow> h),
      cached = Map.empty, objects = [], posts = [], reactions = [],
      results = Map.empty, tickets = 0\<rparr>"

text \<open>
  The value the callback \<open>(token) => ({ access_token: token, expires_in:
  Math.floor((cache.expires_at - Date.now()) / 1000) })\<close> produces for the entry \<open>r\<close> when
  it runs at time \<open>now\<close>; \<open>None\<close> while the entry's promise is pending.
\<close>

definition settled_value :: "nat \<Rightarrow> int \<Rightarrow> authentication_client \<Rightarrow> (error + two_legged_token) option" where
  "settled_value r now c =
     (case promise (objects c ! r) of
        Pending \<Rightarrow> None
      | Fulfilled token \<Rightarrow>
          Some (Inr \<lparr>access_token = token,
                     expires_in = (expires_at (objects c ! r) - now) div 1000\<rparr>)
      | Rejected e \<Rightarrow> Some (Inl e))"

text \<open>
  \<open>cache.promise.then((token) => ...)\<close>: the returned promise gets a fresh ticket. On a
  pending promise the callback waits; on a settled one it runs at once, at the time of
  the call.
\<close>

definition then_token :: "nat \<Rightarrow> int \<Rightarrow> authentication_client \<Rightarrow> nat \<times> authentication_client" where
  "then_token r now c =
     (let t = tickets c in
      case settled_value r now c of
        None \<Rightarrow> (t, c\<lparr>reactions := reactions c @ [(t, r)], tickets := Suc t\<rparr>)
      | Some v \<Rightarrow> (t, c\<lparr>results := (results c)(t \<mapsto> v), tickets := Suc t\<rparr>))"

text \<open>The cache key of a scope list, as line 63 builds it.\<close>

definition cache_key :: "string list \<Rightarrow> string" where
  "cache_key scopes = ''two-legged/'' @ join ''/'' scopes"

text \<open>Lines 73 to 91: request a new token and cache the in-flight operation.\<close>

definition request_token :: "string \<Rightarrow> string list \<Rightarrow> int \<Rightarrow> authentication_client \<Rightarrow> nat \<times> authentication_client" where
  "request_token key scopes now c =
     (let params = [(''client_id'', client_id c), (''client_secret'', client_secret c),
                    (''grant_type'', ''client_credentials''), (''scope'', join '' '' scopes)];
          r = length (objects c);
          c' = c\<lparr>cached := (cached c)(key \<mapsto> r),
                 objects := objects c @ [\<lparr>expires_at = MAX_VALUE, promise = Pending\<rparr>],
                 posts := posts c @
                   [\<lparr>post_url = auth_host c @ ''/'' @ RootPath_auth @ ''/'' @ ''authenticate'',
                     post_params = params, then_key = key, then_entry = r\<rparr>]\<rparr>
      in then_token r now c')"

definition authenticate :: "string list \<Rightarrow> bool \<Rightarrow> int \<Rightarrow> authentication_client \<Rightarrow> nat \<times> authentication_client" where
  "authenticate scopes force now c =
     (let key = cache_key scopes in
      case (if \<not> force then cached c key else None) of
        Some r \<Rightarrow>
          if now < expires_at (objects c ! r) then then_token r now c
          else request_token key scopes now c
      | None \<Rightarrow> request_token key scopes now c)"

text \<open>Run the callbacks waiting on the promise of entry \<open>r\<close>, once it has settled.\<close>

definition run_reactions :: "nat \<Rightarrow> int \<Rightarrow> authentication_client \<Rightarrow> authentication_client" where
  "run_reactions r now c =
     (case settled_value r now c of
        None \<Rightarrow> c
      | Some v \<Rightarrow>
          c\<lparr>results := (\<lambda>t. if (t, r) \<in> set (reactions c) then Some v else results c t),
            reactions := filter (\<lambda>(t, r'). r' \<noteq> r) (reactions c)\<rparr>)"

text \<open>
  The response to the \<open>i\<close>-th token request arrives at time \<open>now\<close>: \<open>Inr data\<close> for a 2xx
  response, \<open>Inl e\<close> when the request fails. On success the chained callback stores the
  expiry in the entry that \<open>_cached[key]\<close> holds at that moment and returns the token;
  on failure the chained promise is rejected and the callback never runs. Then the
  waiting callbacks run. A promise settles once.
\<close>

definition post_settles :: "nat \<Rightarrow> error + token_response \<Rightarrow> int \<Rightarrow> authentication_client \<Rightarrow> authentication_client" where
  "post_settles i resp now c =
     (if i < length (posts c) then
        (let key = then_key (posts c ! i); r = then_entry (posts c ! i) in
         if promise (objects c ! r) = Pending then
           (case resp of
              Inl e \<Rightarrow>
                run_reactions r now
                  (c\<lparr>objects := (objects c)[r := (objects c ! r)\<lparr>promise := Rejected e\<rparr>]\<rparr>)
            | Inr data \<Rightarrow>
                (case cached c key of
                   None \<Rightarrow>
                     run_reactions r now
                       (c\<lparr>objects := (objects c)[r := (objects c ! r)\<lparr>promise := Rejected (Error ''TypeError'')\<rparr>]\<rparr>)
                 | Some b \<Rightarrow>
                     (let os = (objects c)[b := (objects c ! b)\<lparr>expires_at := now + data_expires_in data * 1000\<rparr>]
                      in run_reactions r now
                           (c\<lparr>objects := os[r := (os ! r)\<lparr>promise := Fulfilled (data_access_token data)\<rparr>]\<rparr>))))
         else c)
      else c)"

subsection \<open>Notions used to state the properties of the cache\<close>

text \<open>The call \<open>authenticate(scopes, false)\<close> at \<open>now\<close> finds no entry, or an expired one.\<close>

definition cache_miss :: "string list \<Rightarrow> int \<Rightarrow> authentication_client \<Rightarrow> bool" where
  "cache_miss scopes now c =
     (case cached c (cache_key scopes) of
        None \<Rightarrow> True
      | Some r \<Rightarrow> expires_at (objects c ! r) \<le> now)"



text \<open>
  What can happen to a client: a call of \<open>authenticate\<close>, or the arrival of the response
  to the \<open>i\<close>-th token request.
\<close>

datatype event = Call "string list" bool int | Arrives nat "error + token_response" int

fun step :: "event \<Rightarrow> authentication_client \<Rightarrow> authentication_client" where
  "step (Call scopes force now) c = snd (authenticate scopes force now c)"
| "step (Arrives i resp now) c = post_settles i resp now c"



text \<open>Every cached reference points into the store, as in every state a client reaches.\<close>

definition well_formed :: "authentication_client \<Rightarrow> bool" where
  "well_formed c = (\<forall>k r. cached c k = Some r \<longrightarrow> r < length (objects c))"



section \<open>The authenticated client (dist/common.js)\<close>

definition RetryDelay :: int where
  "RetryDelay = 5000"

definition MAX_SAFE_INTEGER :: int where
  "MAX_SAFE_INTEGER = 2 ^ 53 - 1"

datatype region = US | EMEA

text \<open>
  The \<open>auth\<close> argument (\<open>IAuthOptions\<close>): a property is \<open>None\<close> when the object does
  not have it, so \<open>'token' in auth\<close> is \<open>opt_token auth \<noteq> None\<close>.
\<close>

record auth_options =
  opt_client_id :: "string option"
  opt_client_secret :: "string option"
  opt_token :: "string option"

record axios_instance =
  baseURL :: string
  maxContentLength :: "int option"
  maxBodyLength :: "int option"

record forge_client =
  auth :: "authentication_client option"
  token :: "string option"
  root :: string
  host :: string
  region :: region
  axios :: axios_instance

text \<open>\<open>host || DefaultHost\<close>: the default replaces \<open>undefined\<close> and the empty string.\<close>

definition host_or_default :: "string option \<Rightarrow> string" where
  "host_or_default h = (case h of None \<Rightarrow> DefaultHost | Some s \<Rightarrow> if s = [] then DefaultHost else s)"

definition region_or_default :: "region option \<Rightarrow> region" where
  "region_or_default r = (case r of None \<Rightarrow> US | Some x \<Rightarrow> x)"

definition ForgeClient :: "string \<Rightarrow> auth_options \<Rightarrow> string option \<Rightarrow> region option \<Rightarrow> error + forge_client" where
  "ForgeClient root_arg auth_arg host_arg region_arg =
     (let rest = (\<lambda>a t.
            \<lparr>auth = a, token = t, root = root_arg, host = host_or_default host_arg,
             region = region_or_default region_arg,
             axios = \<lparr>baseURL = host_or_default host_arg @ ''/'' @ root_arg @ ''/'',
                      maxContentLength = Some MAX_SAFE_INTEGER,
                      maxBodyLength = Some MAX_SAFE_INTEGER\<rparr>\<rparr>)
      in case (opt_client_id auth_arg, opt_client_secret auth_arg) of
           (Some cid, Some secret) \<Rightarrow> Inr (rest (Some (AuthenticationClient cid secret host_arg)) None)
         | _ \<Rightarrow>
             (case opt_token auth_arg of
                Some t \<Rightarrow> Inr (rest None (Some t))
              | None \<Rightarrow> Inl (Error ''Authentication parameters missing or incorrect.'')))"

definition reset :: "auth_options option \<Rightarrow> string option \<Rightarrow> region option \<Rightarrow> forge_client \<Rightarrow> error + forge_client" where
  "reset auth_arg host_arg region_arg fc =
     (case (case auth_arg of
              None \<Rightarrow> Inr fc
            | Some a \<Rightarrow>
                (case (opt_client_id a, opt_client_secret a) of
                   (Some cid, Some secret) \<Rightarrow>
                     Inr (fc\<lparr>auth := Some (AuthenticationClient cid secret host_arg)\<rparr>)
                 | _ \<Rightarrow>
                     (case opt_token a of
                        Some t \<Rightarrow> Inr (fc\<lparr>token := Some t\<rparr>)
                      | None \<Rightarrow> Inl (Error ''Authentication parameters missing or incorrect.'')))) of
        Inl e \<Rightarrow> Inl e
      | Inr fc1 \<Rightarrow>
          (let fc2 = (case host_arg of None \<Rightarrow> fc1 | Some h \<Rightarrow> fc1\<lparr>host := host_or_default (Some h)\<rparr>);
               fc3 = (case region_arg of None \<Rightarrow> fc2 | Some r \<Rightarrow> fc2\<lparr>region := region_or_default (Some r)\<rparr>)
           in Inr (fc3\<lparr>axios := \<lparr>baseURL = host fc3 @ ''/'' @ root fc3 @ ''/'',
                                  maxContentLength = None, maxBodyLength = None\<rparr>\<rparr>)))"

text \<open>
  \<open>await this.auth.authenticate(scopes)\<close> suspends until the token promise settles, which
  depends on the token endpoint. The awaited outcome is a parameter \<open>authn\<close>: the outcome
  and the authentication client afterwards, \<open>None\<close> when the promise never settles.
\<close>

type_synonym authn = "string list \<Rightarrow> authentication_client \<Rightarrow> ((error + two_legged_token) \<times> authentication_client) option"

text \<open>Header values: text, or the byte range \<open>bytes=<first>-<last>\<close>.\<close>

datatype header_value = Text string | Bytes int int

type_synonym headers = "string \<rightharpoonup> header_value"

text \<open>\<open>'Bearer ' + this.token\<close>: an absent token is printed as \<open>undefined\<close>.\<close>

definition token_text :: "string option \<Rightarrow> string" where
  "token_text t = (case t of None \<Rightarrow> ''undefined'' | Some s \<Rightarrow> s)"

definition setAuthorization :: "authn \<Rightarrow> headers \<Rightarrow> string list \<Rightarrow> forge_client \<Rightarrow> ((error + headers) \<times> forge_client) option" where
  "setAuthorization authn hs scopes fc =
     (case auth fc of
        Some a \<Rightarrow>
          (case authn scopes a of
             None \<Rightarrow> None
           | Some (Inl e, a') \<Rightarrow> Some (Inl e, fc\<lparr>auth := Some a'\<rparr>)
           | Some (Inr authentication, a') \<Rightarrow>
               Some (Inr (hs(''Authorization'' \<mapsto> Text (''Bearer '' @ access_token authentication))),
                     fc\<lparr>auth := Some a'\<rparr>))
      | None \<Rightarrow> Some (Inr (hs(''Authorization'' \<mapsto> Text (''Bearer '' @ token_text (token fc)))), fc))"

text \<open>
  One instance of \<open>authn\<close>, built from the token cache: the call is made at \<open>now\<close>; when the
  returned promise is not settled yet, the response \<open>net\<close> to the request it waits on
  arrives at \<open>later\<close>.
\<close>

definition pending_post :: "nat \<Rightarrow> authentication_client \<Rightarrow> nat option" where
  "pending_post t c = find (\<lambda>i. (t, then_entry (posts c ! i)) \<in> set (reactions c)) [0..<length (posts c)]"

definition await_authenticate :: "error + token_response \<Rightarrow> int \<Rightarrow> int \<Rightarrow> authn" where
  "await_authenticate net now later scopes c =
     (let (t, c1) = authenticate scopes False now c;
          c2 = (case results c1 t of
                  Some v \<Rightarrow> c1
                | None \<Rightarrow> (case pending_post t c1 of None \<Rightarrow> c1 | Some i \<Rightarrow> post_settles i net later c1))
      in case results c2 t of None \<Rightarrow> None | Some v \<Rightarrow> Some (v, c2))"

subsection \<open>The transport\<close>

datatype http_method = GET | HEAD

record request =
  req_method :: http_method
  req_url :: string
  req_headers :: headers
  sent_at :: int

text \<open>
  What the server answers to a request: status, \<open>content-length\<close> header (\<open>None\<close> when
  absent), body, and the time in milliseconds until the response has arrived.
\<close>

record 'd reply =
  reply_status :: nat
  reply_content_length :: "int option"
  reply_data :: 'd
  reply_after :: int

record 'd response =
  status :: nat
  content_length :: "int option"
  data :: 'd

text \<open>The network as the client sees it: a clock and the log of requests sent.\<close>

record net =
  clock :: int
  sent :: "request list"

text \<open>The server: its answer to the \<open>i\<close>-th request.\<close>

type_synonym 'd server = "nat \<Rightarrow> request \<Rightarrow> 'd reply"

text \<open>
  \<open>await this.axios.get(endpoint, config)\<close> and \<open>await this.axios.head(url, config)\<close>:
  the request is logged with the time it is sent, the clock advances to the arrival of
  the response, and a status outside 2xx rejects (axios's default \<open>validateStatus\<close>).
\<close>

definition axios_request :: "'d server \<Rightarrow> http_method \<Rightarrow> string \<Rightarrow> headers \<Rightarrow> net \<Rightarrow> (error + 'd response) \<times> net" where
  "axios_request server m url hs n =
     (let req = \<lparr>req_method = m, req_url = url, req_headers = hs, sent_at = clock n\<rparr>;
          rep = server (length (sent n)) req;
          n' = n\<lparr>clock := clock n + reply_after rep, sent := sent n @ [req]\<rparr>
      in if 200 \<le> reply_status rep \<and> reply_status rep < 300
         then (Inr \<lparr>status = reply_status rep, content_length = reply_content_length rep,
                     data = reply_data rep\<rparr>, n')
         else (Inl (Error ''Request failed''), n'))"

text \<open>\<open>sleep(ms)\<close> returns a promise that a timer resolves \<open>ms\<close> later: here, the time at which it resolves.\<close>

definition sleep :: "int \<Rightarrow> net \<Rightarrow> int" where
  "sleep ms n = clock n + ms"

text \<open>
  The loop of \<open>get\<close>, \<open>getBuffer\<close> and \<open>getStream\<close> (lines 96 to 99). The promise of
  \<open>sleep(RetryDelay)\<close> is created and dropped: the loop does not await it.
\<close>

partial_function (option) repeat_on_202 :: "'d server \<Rightarrow> string \<Rightarrow> headers \<Rightarrow> bool \<Rightarrow> 'd response \<Rightarrow> net \<Rightarrow> ((error + 'd) \<times> net) option" where
  "repeat_on_202 server endpoint config repeatOn202 resp n =
     (if status resp = 202 \<and> repeatOn202 then
        (let timer = sleep RetryDelay n in
         case axios_request server GET endpoint config n of
           (Inl e, n') \<Rightarrow> Some (Inl e, n')
         | (Inr resp', n') \<Rightarrow> repeat_on_202 server endpoint config repeatOn202 resp' n')
      else Some (Inr (data resp), n))"

definition get :: "authn \<Rightarrow> 'd server \<Rightarrow> string \<Rightarrow> headers \<Rightarrow> string list \<Rightarrow> bool \<Rightarrow> forge_client \<Rightarrow> net \<Rightarrow> ((error + 'd) \<times> forge_client \<times> net) option" where
  "get authn server endpoint hs scopes repeatOn202 fc n =
     (case setAuthorization authn hs scopes fc of
        None \<Rightarrow> None
      | Some (Inl e, fc') \<Rightarrow> Some (Inl e, fc', n)
      | Some (Inr config, fc') \<Rightarrow>
          (case axios_request server GET endpoint config n of
             (Inl e, n') \<Rightarrow> Some (Inl e, fc', n')
           | (Inr resp, n') \<Rightarrow>
               (case repeat_on_202 server endpoint config repeatOn202 resp n' of
                  None \<Rightarrow> None
                | Some (r, n'') \<Rightarrow> Some (r, fc', n''))))"


definition getBuffer :: "authn \<Rightarrow> 'd server \<Rightarrow> string \<Rightarrow> headers \<Rightarrow> string list \<Rightarrow> bool \<Rightarrow> forge_client \<Rightarrow> net \<Rightarrow> ((error + 'd) \<times> forge_client \<times> net) option" where
  "getBuffer authn server endpoint hs scopes repeatOn202 fc n =
     (case setAuthorization authn hs scopes fc of
        None \<Rightarrow> None
      | Some (Inl e, fc') \<Rightarrow> Some (Inl e, fc', n)
      | Some (Inr config, fc') \<Rightarrow>
          (case axios_request server GET endpoint config n of
             (Inl e, n') \<Rightarrow> Some (Inl e, fc', n')
           | (Inr resp, n') \<Rightarrow>
               (case repeat_on_202 server endpoint config repeatOn202 resp n' of
                  None \<Rightarrow> None
                | Some (r, n'') \<Rightarrow> Some (r, fc', n''))))"

text \<open>A server that answers 202 to the first two requests and 200 to the third, each after 100 ms.\<close>

definition accepted_twice :: "string server" where
  "accepted_twice i req =
     (if i < 2 then \<lparr>reply_status = 202, reply_content_length = None, reply_data = ''pending'', reply_after = 100\<rparr>
      else \<lparr>reply_status = 200, reply_content_length = None, reply_data = ''ready'', reply_after = 100\<rparr>)"

section \<open>The model derivative client (dist/model-derivative.js)\<close>

definition ReadTokenScopes :: "string list" where
  "ReadTokenScopes = [''data:read'']"

subsection \<open>Chunked download\<close>

definition derivative_url :: "region \<Rightarrow> string \<Rightarrow> string \<Rightarrow> string" where
  "derivative_url rg modelUrn derivativeUrn =
     (if rg = EMEA then ''regions/eu/designdata/'' @ modelUrn @ ''/manifest/'' @ derivativeUrn
      else ''designdata/'' @ modelUrn @ ''/manifest/'' @ derivativeUrn)"

text \<open>
  The loop of the generator \<open>read\<close> (lines 212 to 218). The result is the outcome (an
  error aborts the sequence), the final \<open>streamedBytes\<close>, the buffers yielded in order,
  and the client and the network afterwards; \<open>None\<close> when the loop never ends.
\<close>

partial_function (option) read_loop :: "authn \<Rightarrow> string server \<Rightarrow> string \<Rightarrow> int \<Rightarrow> int \<Rightarrow> int \<Rightarrow> string list \<Rightarrow> forge_client \<Rightarrow> net \<Rightarrow> ((error + int) \<times> string list \<times> forge_client \<times> net) option" where
  "read_loop authn server url maxChunkSize contentLength streamedBytes yielded fc n =
     (if streamedBytes < contentLength then
        (let chunkSize = min maxChunkSize (contentLength - streamedBytes) in
         case setAuthorization authn Map.empty ReadTokenScopes fc of
           None \<Rightarrow> None
         | Some (Inl e, fc1) \<Rightarrow> Some (Inl e, yielded, fc1, n)
         | Some (Inr config, fc1) \<Rightarrow>
             (case getBuffer authn server url
                     [''Range'' \<mapsto> Bytes streamedBytes (streamedBytes + chunkSize - 1)]
                     ReadTokenScopes False fc1 n of
                None \<Rightarrow> None
              | Some (Inl e, fc2, n2) \<Rightarrow> Some (Inl e, yielded, fc2, n2)
              | Some (Inr buff, fc2, n2) \<Rightarrow>
                  read_loop authn server url maxChunkSize contentLength
                    (streamedBytes + chunkSize) (yielded @ [buff]) fc2 n2))
      else Some (Inr streamedBytes, yielded, fc, n))"

text \<open>
  \<open>getDerivativeChunked\<close>, consumed to its end: the \<open>HEAD\<close> request, then the loop.
  \<open>parseInt\<close> of an absent \<open>content-length\<close> is \<open>NaN\<close>, and \<open>0 < NaN\<close> is false: no chunk.
\<close>

definition getDerivativeChunked :: "authn \<Rightarrow> string server \<Rightarrow> string \<Rightarrow> string \<Rightarrow> int \<Rightarrow> forge_client \<Rightarrow> net \<Rightarrow> ((error + int) \<times> string list \<times> forge_client \<times> net) option" where
  "getDerivativeChunked authn server modelUrn derivativeUrn maxChunkSize fc n =
     (let url = derivative_url (region fc) modelUrn derivativeUrn in
      case setAuthorization authn Map.empty ReadTokenScopes fc of
        None \<Rightarrow> None
      | Some (Inl e, fc1) \<Rightarrow> Some (Inl e, [], fc1, n)
      | Some (Inr config, fc1) \<Rightarrow>
          (case axios_request server HEAD url config n of
             (Inl e, n1) \<Rightarrow> Some (Inl e, [], fc1, n1)
           | (Inr resp, n1) \<Rightarrow>
               (case content_length resp of
                  None \<Rightarrow> Some (Inr 0, [], fc1, n1)
                | Some contentLength \<Rightarrow>
                    read_loop authn server url maxChunkSize contentLength 0 [] fc1 n1)))"

text \<open>
  A server holding one resource \<open>content\<close>, answering as HTTP range requests are specified:
  \<open>HEAD\<close> reports the length; \<open>GET\<close> with a satisfiable \<open>Range: bytes=lo-hi\<close> returns
  the bytes \<open>lo\<close> to \<open>hi\<close> inclusive (cut at the end of the resource) with status 206,
  an unsatisfiable range gives 416, and \<open>GET\<close> without a range returns everything.
\<close>

definition resource_server :: "string \<Rightarrow> string server" where
  "resource_server content i req =
     (let len = int (length content) in
      case req_method req of
        HEAD \<Rightarrow> \<lparr>reply_status = 200, reply_content_length = Some len, reply_data = [], reply_after = 0\<rparr>
      | GET \<Rightarrow>
          (case req_headers req ''Range'' of
             Some (Bytes lo hi) \<Rightarrow>
               if 0 \<le> lo \<and> lo \<le> hi \<and> lo < len then
                 (let body = take (nat (hi - lo + 1)) (drop (nat lo) content) in
                  \<lparr>reply_status = 206, reply_content_length = Some (int (length body)),
                   reply_data = body, reply_after = 0\<rparr>)
               else \<lparr>reply_status = 416, reply_content_length = Some 0, reply_data = [], reply_after = 0\<rparr>
           | _ \<Rightarrow> \<lparr>reply_status = 200, reply_content_length = Some len, reply_data = content, reply_after = 0\<rparr>))"

text \<open>
  Notions used to state the properties of the chunked download: the awaited
  authentication always resolves to a token.
\<close>

definition always_authorizes :: "authn \<Rightarrow> bool" where
  "always_authorizes authn = (\<forall>scopes a. \<exists>tok a'. authn scopes a = Some (Inr tok, a'))"

text \<open>The number of chunks \<open>ceil(L / C)\<close>, in integer arithmetic.\<close>

definition chunk_count :: "int \<Rightarrow> int \<Rightarrow> nat" where
  "chunk_count L C = nat (- ((- L) div C))"

text \<open>The resource cut into pieces of \<open>C\<close> bytes, the last one shorter when \<open>C\<close> does not divide the length.\<close>

definition pieces :: "string \<Rightarrow> int \<Rightarrow> string list" where
  "pieces content C =
     map (\<lambda>i. take (nat C) (drop (i * nat C) content)) [0..<chunk_count (int (length content)) C]"

subsection \<open>Manifest helper\<close>

text \<open>
  An entry of the manifest tree. A field is \<open>None\<close> when the object does not have it;
  \<open>children\<close> is \<open>None\<close> when the entry has no \<open>children\<close> array.
\<close>

datatype node = Node (guid: "string option") (type: "string option") (role: "string option")
  (children: "node list option")

record manifest =
  derivatives :: "node list"

record query =
  q_guid :: "string option"
  q_type :: "string option"
  q_role :: "string option"

text \<open>
  The inner function \<open>process\<close> of \<open>traverse\<close>. The callback may have effects (\<open>search\<close>
  pushes to an array): it takes and returns a state \<open>'s\<close> beside its boolean result.
\<close>

fun process :: "(node \<Rightarrow> 's \<Rightarrow> bool \<times> 's) \<Rightarrow> node \<Rightarrow> 's \<Rightarrow> 's" where
  "process callback (Node g t r ch) s =
     (let (proceed, s1) = callback (Node g t r ch) s in
      if proceed then
        (case ch of
           Some cs \<Rightarrow> fold (\<lambda>child. process callback child) cs s1
         | None \<Rightarrow> s1)
      else s1)"

definition traverse :: "manifest \<Rightarrow> (node \<Rightarrow> 's \<Rightarrow> bool \<times> 's) \<Rightarrow> 's \<Rightarrow> 's" where
  "traverse m callback s =
     fold (\<lambda>derivative s'.
             case children derivative of
               Some cs \<Rightarrow> fold (\<lambda>child. process callback child) cs s'
             | None \<Rightarrow> s')
          (derivatives m) s"

definition isNullOrUndefined :: "'a option \<Rightarrow> bool" where
  "isNullOrUndefined v = (v = None)"

definition search :: "manifest \<Rightarrow> query \<Rightarrow> node list" where
  "search m q =
     traverse m
       (\<lambda>child matches.
          (True,
           if (isNullOrUndefined (q_guid q) \<or> guid child = q_guid q)
              \<and> (isNullOrUndefined (q_type q) \<or> type child = q_type q)
              \<and> (isNullOrUndefined (q_role q) \<or> role child = q_role q)
           then matches @ [child] else matches))
       []"

text \<open>Notions used to state the properties of the manifest helper.\<close>

text \<open>The children of an entry, none when it has no \<open>children\<close> array.\<close>

definition kids :: "node \<Rightarrow> node list" where
  "kids n = (case children n of None \<Rightarrow> [] | Some cs \<Rightarrow> cs)"

text \<open>Document order: a node, then the subtrees of its children from first to last.\<close>

fun preorder :: "node \<Rightarrow> node list" where
  "preorder (Node g t r ch) =
     Node g t r ch # (case ch of None \<Rightarrow> [] | Some cs \<Rightarrow> concat (map preorder cs))"

text \<open>The same walk, cut below every node where the predicate is false.\<close>

fun pruned_preorder :: "(node \<Rightarrow> bool) \<Rightarrow> node \<Rightarrow> node list" where
  "pruned_preorder p (Node g t r ch) =
     Node g t r ch #
     (if p (Node g t r ch)
      then (case ch of None \<Rightarrow> [] | Some cs \<Rightarrow> concat (map (pruned_preorder p) cs))
      else [])"

text \<open>The nodes strictly below an entry, and below the top-level entries of a manifest.\<close>

definition below :: "node \<Rightarrow> node list" where
  "below d = concat (map preorder (kids d))"

definition traversed :: "manifest \<Rightarrow> node list" where
  "traversed m = concat (map below (derivatives m))"

definition matches :: "query \<Rightarrow> node \<Rightarrow> bool" where
  "matches q n =
     ((q_guid q = None \<or> guid n = q_guid q)
      \<and> (q_type q = None \<or> type n = q_type q)
      \<and> (q_role q = None \<or> role n = q_role q))"

subsection \<open>urnify\<close>

text \<open>
  \<open>Buffer.from(id).toString('base64')\<close> is the platform's standard base64 (RFC 4648,
  with \<open>=\<close> padding) of the identifier's bytes. A \<open>string\<close> is the list of those bytes.
\<close>

definition base64_alphabet :: string where
  "base64_alphabet = ''ABCDEFGHIJKLMNOPQRSTUVWXYZabcdefghijklmnopqrstuvwxyz0123456789+/''"

definition sextet_char :: "nat \<Rightarrow> char" where
  "sextet_char v = base64_alphabet ! v"

fun base64_encode :: "nat list \<Rightarrow> string" where
  "base64_encode [] = []"
| "base64_encode [a] =
     [sextet_char (a div 4), sextet_char (a mod 4 * 16), CHR ''='', CHR ''='']"
| "base64_encode [a, b] =
     [sextet_char (a div 4), sextet_char (a mod 4 * 16 + b div 16),
      sextet_char (b mod 16 * 4), CHR ''='']"
| "base64_encode (a # b # c # rest) =
     sextet_char (a div 4) # sextet_char (a mod 4 * 16 + b div 16) #
     sextet_char (b mod 16 * 4 + c div 64) # sextet_char (c mod 64) # base64_encode rest"

definition to_base64 :: "string \<Rightarrow> string" where
  "to_base64 bytes = base64_encode (map of_char bytes)"

text \<open>\<open>.replace(/=/g, '')\<close> removes every \<open>=\<close>.\<close>

definition urnify :: "string \<Rightarrow> string" where
  "urnify ident = filter (\<lambda>ch. ch \<noteq> CHR ''='') (to_base64 ident)"

text \<open>The reader's side: pad to a multiple of four characters, then decode.\<close>

definition add_padding :: "string \<Rightarrow> string" where
  "add_padding s = s @ replicate ((4 - length s mod 4) mod 4) CHR ''=''"

fun index_of :: "'a \<Rightarrow> 'a list \<Rightarrow> nat option" where
  "index_of x [] = None"
| "index_of x (y # ys) = (if x = y then Some 0 else map_option Suc (index_of x ys))"

definition char_sextet :: "char \<Rightarrow> nat option" where
  "char_sextet ch = index_of ch base64_alphabet"

fun base64_decode :: "string \<Rightarrow> nat list option" where
  "base64_decode [] = Some []"
| "base64_decode (c0 # c1 # c2 # c3 # rest) =
     (case (char_sextet c0, char_sextet c1) of
        (Some v0, Some v1) \<Rightarrow>
          if rest = [] \<and> c2 = CHR ''='' \<and> c3 = CHR ''='' then Some [v0 * 4 + v1 div 16]
          else
            (case char_sextet c2 of
               Some v2 \<Rightarrow>
                 if rest = [] \<and> c3 = CHR ''='' then Some [v0 * 4 + v1 div 16, v1 mod 16 * 16 + v2 div 4]
                 else
                   (case (char_sextet c3, base64_decode rest) of
                      (Some v3, Some bs) \<Rightarrow>
                        Some ((v0 * 4 + v1 div 16) # (v1 mod 16 * 16 + v2 div 4) # (v2 mod 4 * 64 + v3) # bs)
                    | _ \<Rightarrow> None)
             | None \<Rightarrow> None)
      | _ \<Rightarrow> None)"
| "base64_decode _ = None"

definition from_base64 :: "string \<Rightarrow> string option" where
  "from_base64 s = map_option (map char_of) (base64_decode s)"

section \<open>Properties of the token cache\<close>

lemma settled_value_new:
  "settled_value (length os) now (c\<lparr>objects := os @ [\<lparr>expires_at = e, promise = Pending\<rparr>]\<rparr>) = None"
  by (simp add: settled_value_def)

lemma request_token_eq:
  "request_token key scopes now c =
     (tickets c,
      c\<lparr>cached := (cached c)(key \<mapsto> length (objects c)),
        objects := objects c @ [\<lparr>expires_at = MAX_VALUE, promise = Pending\<rparr>],
        posts := posts c @
          [\<lparr>post_url = auth_host c @ ''/'' @ RootPath_auth @ ''/'' @ ''authenticate'',
            post_params = [(''client_id'', client_id c), (''client_secret'', client_secret c),
                    (''grant_type'', ''client_credentials''), (''scope'', join '' '' scopes)],
            then_key = key, then_entry = length (objects c)\<rparr>],
        reactions := reactions c @ [(tickets c, length (objects c))],
        tickets := Suc (tickets c)\<rparr>)"
  by (simp add: request_token_def then_token_def settled_value_def Let_def)

lemma authenticate_miss:
  "force \<or> cache_miss scopes now c \<Longrightarrow>
   authenticate scopes force now c = request_token (cache_key scopes) scopes now c"
  by (auto simp: authenticate_def cache_miss_def Let_def split: option.splits)

lemma authenticate_hit:
  "cached c (cache_key scopes) = Some r \<Longrightarrow> now < expires_at (objects c ! r) \<Longrightarrow>
   authenticate scopes False now c = then_token r now c"
  by (simp add: authenticate_def Let_def)

text \<open>
  C1. Two calls \<open>authenticate(S, false)\<close> on the same client, the first finding no usable
  entry and the second made before the response to the first has arrived, issue exactly
  one token request. After the first call the cache holds, under the key of \<open>S\<close>, an entry
  whose promise is pending and whose \<open>expires_at\<close> is \<open>Number.MAX_VALUE\<close>; both returned
  promises wait on that one entry, and when the response arrives both settle to the same
  token. (The second call is made at a time below \<open>Number.MAX_VALUE\<close>, as every value of
  \<open>Date.now()\<close> is.)
\<close>

theorem authenticate_concurrent_dedup:
  assumes miss: "cache_miss S t1 c"
    and t2: "t2 < MAX_VALUE"
    and a1: "authenticate S False t1 c = (k1, c1)"
    and a2: "authenticate S False t2 c1 = (k2, c2)"
  shows "length (posts c1) = length (posts c) + 1 \<and> posts c2 = posts c1
       \<and> cached c1 (cache_key S) = Some (length (objects c))
       \<and> objects c1 ! length (objects c) = \<lparr>expires_at = MAX_VALUE, promise = Pending\<rparr>
       \<and> then_entry (last (posts c2)) = length (objects c)
       \<and> k1 \<noteq> k2
       \<and> (k1, length (objects c)) \<in> set (reactions c2)
       \<and> (k2, length (objects c)) \<in> set (reactions c2)
       \<and> (\<forall>t3 d. results (post_settles (length (posts c)) (Inr d) t3 c2) k1
                   = Some (Inr \<lparr>access_token = data_access_token d, expires_in = data_expires_in d\<rparr>)
                \<and> results (post_settles (length (posts c)) (Inr d) t3 c2) k2
                   = Some (Inr \<lparr>access_token = data_access_token d, expires_in = data_expires_in d\<rparr>))"
proof -
  let ?r = "length (objects c)"
  from miss a1 have c1: "request_token (cache_key S) S t1 c = (k1, c1)"
    by (simp add: authenticate_miss)
  have hit: "authenticate S False t2 c1 = then_token ?r t2 c1"
    using c1 t2 by (intro authenticate_hit) (auto simp: request_token_eq)
  have pend: "settled_value ?r t2 c1 = None"
    using c1 by (auto simp: request_token_eq settled_value_def)
  from hit a2 pend have c2: "c2 = c1\<lparr>reactions := reactions c1 @ [(k2, ?r)], tickets := Suc (tickets c1)\<rparr>"
    and k2: "k2 = tickets c1"
    by (auto simp: then_token_def Let_def)
  show ?thesis
    using c1 unfolding c2 k2
    by (auto simp: request_token_eq post_settles_def run_reactions_def settled_value_def Let_def nth_append)
qed

theorem authenticate_concurrent_dedup_witness:
  "cache_miss [''data:read''] 1000 (AuthenticationClient ''id'' ''secret'' None)
   \<and> (2000::int) < MAX_VALUE
   \<and> length (posts (snd (authenticate [''data:read''] False 2000
        (snd (authenticate [''data:read''] False 1000 (AuthenticationClient ''id'' ''secret'' None)))))) = 1
   \<and> fst (authenticate [''data:read''] False 1000 (AuthenticationClient ''id'' ''secret'' None))
     \<noteq> fst (authenticate [''data:read''] False 2000
        (snd (authenticate [''data:read''] False 1000 (AuthenticationClient ''id'' ''secret'' None))))"
proof -
  let ?c = "AuthenticationClient ''id'' ''secret'' None"
  let ?a1 = "authenticate [''data:read''] False 1000 ?c"
  let ?a2 = "authenticate [''data:read''] False 2000 (snd ?a1)"
  have m: "cache_miss [''data:read''] 1000 ?c"
    by (simp add: cache_miss_def AuthenticationClient_def)
  have t: "(2000::int) < MAX_VALUE"
    by (simp add: MAX_VALUE_def)
  have p0: "posts ?c = []"
    by (simp add: AuthenticationClient_def)
  from authenticate_concurrent_dedup[OF m t, of "fst ?a1" "snd ?a1" "fst ?a2" "snd ?a2"] m t p0
  show ?thesis by simp
qed


text \<open>
  C2. A call \<open>authenticate(S, false)\<close> that finds no usable entry, the arrival of the
  token response, and a second call \<open>authenticate(S, false)\<close> before the expiry stored on
  arrival: both calls resolve to the same access token, exactly one token request is
  issued, and the second call's \<open>expires_in\<close> is the entry's \<open>expires_at\<close> minus the time of
  that call, divided by 1000 and floored (not the lifetime the server reported).
\<close>

theorem authenticate_twice_before_expiry:
  assumes miss: "cache_miss S t1 c"
    and a1: "authenticate S False t1 c = (k1, c1)"
    and c2: "c2 = post_settles (length (posts c)) (Inr d) tr c1"
    and t2: "t2 < tr + data_expires_in d * 1000"
    and a2: "authenticate S False t2 c2 = (k2, c3)"
  shows "results c3 k1 = Some (Inr \<lparr>access_token = data_access_token d, expires_in = data_expires_in d\<rparr>)
       \<and> results c3 k2 = Some (Inr \<lparr>access_token = data_access_token d,
                                     expires_in = (expires_at (objects c3 ! length (objects c)) - t2) div 1000\<rparr>)
       \<and> cached c3 (cache_key S) = Some (length (objects c))
       \<and> expires_at (objects c3 ! length (objects c)) = tr + data_expires_in d * 1000
       \<and> length (posts c3) = length (posts c) + 1"
proof -
  let ?r = "length (objects c)"
  let ?e = "\<lparr>expires_at = tr + data_expires_in d * 1000, promise = Fulfilled (data_access_token d)\<rparr>"
  from miss a1 have c1: "request_token (cache_key S) S t1 c = (k1, c1)"
    by (simp add: authenticate_miss)
  have k1: "k1 = tickets c" using c1 by (simp add: request_token_eq)
  have c2': "cached c2 (cache_key S) = Some ?r" "objects c2 = objects c @ [?e]"
    "posts c2 = posts c1" "length (posts c1) = length (posts c) + 1"
    "results c2 = (\<lambda>t. if (t, ?r) \<in> set (reactions c1) then
        Some (Inr \<lparr>access_token = data_access_token d, expires_in = data_expires_in d\<rparr>) else results c1 t)"
    "tickets c2 = Suc (tickets c)" "(k1, ?r) \<in> set (reactions c1)"
    using c1 unfolding c2
    by (auto simp: request_token_eq post_settles_def run_reactions_def settled_value_def Let_def nth_append)
  have hit: "authenticate S False t2 c2 = then_token ?r t2 c2"
    using c2' t2 by (intro authenticate_hit) auto
  have sv: "settled_value ?r t2 c2 = Some (Inr \<lparr>access_token = data_access_token d,
        expires_in = (tr + data_expires_in d * 1000 - t2) div 1000\<rparr>)"
    using c2' by (simp add: settled_value_def)
  from hit a2 sv have c3: "c3 = c2\<lparr>results := (results c2)(k2 \<mapsto> Inr \<lparr>access_token = data_access_token d,
        expires_in = (tr + data_expires_in d * 1000 - t2) div 1000\<rparr>), tickets := Suc (tickets c2)\<rparr>"
    and k2: "k2 = tickets c2"
    by (auto simp: then_token_def Let_def)
  show ?thesis
    unfolding c3 using c2' k1 k2 by auto
qed

theorem authenticate_twice_before_expiry_witness:
  "cache_miss [''data:read''] 1000 (AuthenticationClient ''id'' ''secret'' None)
   \<and> (61500::int) < 1500 + data_expires_in \<lparr>data_access_token = ''tok'', data_expires_in = 3600\<rparr> * 1000
   \<and> results (snd (authenticate [''data:read''] False 61500
        (post_settles 0 (Inr \<lparr>data_access_token = ''tok'', data_expires_in = 3600\<rparr>) 1500
          (snd (authenticate [''data:read''] False 1000 (AuthenticationClient ''id'' ''secret'' None))))))
        (fst (authenticate [''data:read''] False 61500
        (post_settles 0 (Inr \<lparr>data_access_token = ''tok'', data_expires_in = 3600\<rparr>) 1500
          (snd (authenticate [''data:read''] False 1000 (AuthenticationClient ''id'' ''secret'' None))))))
     = Some (Inr \<lparr>access_token = ''tok'', expires_in = 3540\<rparr>)"
proof -
  let ?c = "AuthenticationClient ''id'' ''secret'' None"
  let ?d = "\<lparr>data_access_token = ''tok'', data_expires_in = 3600\<rparr>"
  let ?a1 = "authenticate [''data:read''] False 1000 ?c"
  let ?c2 = "post_settles 0 (Inr ?d) 1500 (snd ?a1)"
  let ?a2 = "authenticate [''data:read''] False 61500 ?c2"
  have m: "cache_miss [''data:read''] 1000 ?c"
    by (simp add: cache_miss_def AuthenticationClient_def)
  have t: "(61500::int) < 1500 + data_expires_in ?d * 1000"
    by simp
  have p0: "posts ?c = []" "objects ?c = []"
    by (simp_all add: AuthenticationClient_def)
  have c2: "?c2 = post_settles (length (posts ?c)) (Inr ?d) 1500 (snd ?a1)"
    by (simp add: p0)
  from authenticate_twice_before_expiry[OF m _ c2 t, of "fst ?a1" "fst ?a2" "snd ?a2"] m t p0
  show ?thesis by simp
qed




lemma then_token_fields:
  "cached (snd (then_token r now c)) = cached c \<and> objects (snd (then_token r now c)) = objects c
   \<and> posts (snd (then_token r now c)) = posts c"
  by (simp add: then_token_def Let_def split: option.splits)

lemma run_reactions_fields:
  "cached (run_reactions r now c) = cached c \<and> objects (run_reactions r now c) = objects c
   \<and> posts (run_reactions r now c) = posts c"
  by (simp add: run_reactions_def split: option.splits)

lemma request_token_fields:
  "cached (snd (request_token key scopes now c)) = (cached c)(key \<mapsto> length (objects c))"
  "objects (snd (request_token key scopes now c))
     = objects c @ [\<lparr>expires_at = MAX_VALUE, promise = Pending\<rparr>]"
  "\<exists>p. posts (snd (request_token key scopes now c)) = posts c @ [p] \<and> then_key p = key
        \<and> then_entry p = length (objects c)"
  by (simp_all add: request_token_eq)


lemma post_settles_fields:
  "cached (post_settles i resp now c) = cached c"
  "posts (post_settles i resp now c) = posts c"
  "length (objects (post_settles i resp now c)) = length (objects c)"
  by (simp_all add: post_settles_def Let_def run_reactions_fields split: sum.splits option.splits)






lemma well_formed_step: "well_formed c \<Longrightarrow> well_formed (step ev c)"
proof (cases ev)
  case (Call scopes force now)
  assume wf: "well_formed c"
  have "authenticate scopes force now c = request_token (cache_key scopes) scopes now c
        \<or> (\<exists>r'. authenticate scopes force now c = then_token r' now c)"
    by (simp add: authenticate_def Let_def split: option.splits) blast
  then show ?thesis
  proof
    assume a: "authenticate scopes force now c = request_token (cache_key scopes) scopes now c"
    show ?thesis using wf unfolding Call step.simps a well_formed_def
      by (auto simp: request_token_fields less_Suc_eq)
  next
    assume "\<exists>r'. authenticate scopes force now c = then_token r' now c"
    then obtain r' where "authenticate scopes force now c = then_token r' now c" by blast
    then show ?thesis using wf unfolding Call well_formed_def
      by (simp add: then_token_fields)
  qed
next
  case (Arrives i resp now)
  assume "well_formed c"
  then show ?thesis unfolding Arrives well_formed_def by (simp add: post_settles_fields)
qed








section \<open>Properties of urnify\<close>

lemma sextet_table: "\<forall>v \<in> set [0..<64]. char_sextet (sextet_char v) = Some v \<and> sextet_char v \<noteq> CHR ''=''"
  by code_simp

lemma sextet_roundtrip: "v < 64 \<Longrightarrow> char_sextet (sextet_char v) = Some v"
  using sextet_table by simp

lemma sextet_not_pad: "v < 64 \<Longrightarrow> sextet_char v \<noteq> CHR ''=''"
  using sextet_table by simp


lemma byte_bound: "(of_char ch :: nat) < 256"
  by (cases ch) simp

lemma add_padding_quad: "add_padding (c0 # c1 # c2 # c3 # s) = c0 # c1 # c2 # c3 # add_padding s"
  by (simp add: add_padding_def)

lemma strip_then_pad:
  "\<forall>b \<in> set bs. b < 256 \<Longrightarrow>
   add_padding (filter (\<lambda>ch. ch \<noteq> CHR ''='') (base64_encode bs)) = base64_encode bs"
proof (induction bs rule: base64_encode.induct)
  case 1
  show ?case by (simp add: add_padding_def)
next
  case (2 a)
  then have "a div 4 < 64" "a mod 4 * 16 < 64" by auto
  then show ?case by (simp add: sextet_not_pad add_padding_def numeral_2_eq_2)
next
  case (3 a b)
  then have "a div 4 < 64" "a mod 4 * 16 + b div 16 < 64" "b mod 16 * 4 < 64" by auto
  then show ?case by (simp add: sextet_not_pad add_padding_def)
next
  case (4 a b c rest)
  then have "a div 4 < 64" "a mod 4 * 16 + b div 16 < 64" "b mod 16 * 4 + c div 64 < 64" "c mod 64 < 64"
    by auto
  with 4 show ?case by (simp add: sextet_not_pad add_padding_quad)
qed

lemma decode_encode:
  "\<forall>b \<in> set bs. b < 256 \<Longrightarrow> base64_decode (base64_encode bs) = Some bs"
proof (induction bs rule: base64_encode.induct)
  case 1
  show ?case by simp
next
  case (2 a)
  then have "a div 4 < 64" "a mod 4 * 16 < 64" by auto
  then show ?case by (simp add: sextet_roundtrip)
next
  case (3 a b)
  then have b: "a div 4 < 64" "a mod 4 * 16 + b div 16 < 64" "b mod 16 * 4 < 64" "b < 256" by auto
  have "(a mod 4 * 16 + b div 16) div 16 = a mod 4" "(a mod 4 * 16 + b div 16) mod 16 = b div 16"
    using b(4) by auto
  with b show ?case by (simp add: sextet_roundtrip sextet_not_pad)
next
  case (4 a b c rest)
  then have b: "a div 4 < 64" "a mod 4 * 16 + b div 16 < 64" "b mod 16 * 4 + c div 64 < 64" "c mod 64 < 64"
    "b < 256" "c < 256"
    by auto
  have ar: "(a mod 4 * 16 + b div 16) div 16 = a mod 4" "(a mod 4 * 16 + b div 16) mod 16 = b div 16"
    "(b mod 16 * 4 + c div 64) div 4 = b mod 16" "(b mod 16 * 4 + c div 64) mod 4 = c div 64"
    using b(5,6) by auto
  from 4 have IH: "base64_decode (base64_encode rest) = Some rest" by simp
  show ?case using b ar IH by (simp add: sextet_roundtrip sextet_not_pad)
qed

text \<open>
  C7. \<open>urnify\<close> is a function of its argument alone; for every identifier its output
  contains no \<open>=\<close>, and base64-decoding the output, once the stripped padding is added
  again, gives back the identifier's bytes.
\<close>

theorem urnify_roundtrip:
  "CHR ''='' \<notin> set (urnify ident) \<and> from_base64 (add_padding (urnify ident)) = Some ident"
proof -
  have bytes: "\<forall>b \<in> set (map of_char ident :: nat list). b < 256"
    by (auto simp: byte_bound)
  have "add_padding (urnify ident) = base64_encode (map of_char ident)"
    unfolding urnify_def to_base64_def by (rule strip_then_pad[OF bytes])
  moreover have "base64_decode (base64_encode (map of_char ident)) = Some (map of_char ident)"
    by (rule decode_encode[OF bytes])
  ultimately have "from_base64 (add_padding (urnify ident)) = Some ident"
    by (simp add: from_base64_def comp_def)
  then show ?thesis by (simp add: urnify_def)
qed

section \<open>Properties of the authenticated client\<close>

text \<open>
  C9. The constructor and \<open>reset\<close> (given an \<open>auth\<close> object) throw the error
  \<open>Authentication parameters missing or incorrect.\<close> exactly when the object has neither
  both \<open>client_id\<close> and \<open>client_secret\<close> nor \<open>token\<close>; with either mode they return a
  client. Both are functions of their arguments alone: no request is sent by either.
\<close>

theorem credentials_checked_at_construction_and_reset:
  "(ForgeClient r a h g = Inl (Error ''Authentication parameters missing or incorrect.''))
     = ((opt_client_id a = None \<or> opt_client_secret a = None) \<and> opt_token a = None)
   \<and> (\<exists>fc'. ForgeClient r a h g = Inr fc')
     = (\<not> ((opt_client_id a = None \<or> opt_client_secret a = None) \<and> opt_token a = None))
   \<and> (reset (Some a) h g fc = Inl (Error ''Authentication parameters missing or incorrect.''))
     = ((opt_client_id a = None \<or> opt_client_secret a = None) \<and> opt_token a = None)
   \<and> (\<exists>fc'. reset (Some a) h g fc = Inr fc')
     = (\<not> ((opt_client_id a = None \<or> opt_client_secret a = None) \<and> opt_token a = None))"
  by (auto simp: ForgeClient_def reset_def Let_def split: option.splits)

theorem credentials_checked_witness:
  "ForgeClient ''modelderivative/v2'' \<lparr>opt_client_id = Some ''id'', opt_client_secret = None, opt_token = None\<rparr> None None
     = Inl (Error ''Authentication parameters missing or incorrect.'')
   \<and> (\<exists>fc'. ForgeClient ''modelderivative/v2'' \<lparr>opt_client_id = None, opt_client_secret = None, opt_token = Some ''T''\<rparr> None None = Inr fc')"
  using credentials_checked_at_construction_and_reset
    [of "''modelderivative/v2''" "\<lparr>opt_client_id = Some ''id'', opt_client_secret = None, opt_token = None\<rparr>" None None]
    credentials_checked_at_construction_and_reset
    [of "''modelderivative/v2''" "\<lparr>opt_client_id = None, opt_client_secret = None, opt_token = Some ''T''\<rparr>" None None]
  by simp

lemma reset_token_keeps_auth:
  "opt_client_id a = None \<or> opt_client_secret a = None \<Longrightarrow> opt_token a = Some t \<Longrightarrow>
   \<exists>fc'. reset (Some a) h g fc = Inr fc' \<and> auth fc' = auth fc \<and> token fc' = Some t"
  by (auto simp: reset_def Let_def split: option.splits)

text \<open>
  C6. A client built with client credentials and then reset with a token-only \<open>auth\<close>
  object stores the token but keeps its authentication client, and \<open>setAuthorization\<close>
  looks at the authentication client first: the header carries the token issued for the
  client credentials, not the static token just supplied.
\<close>

theorem reset_to_token_keeps_client_credentials:
  "\<exists>fc fc' fc'' hs.
     ForgeClient ''modelderivative/v2''
       \<lparr>opt_client_id = Some ''id'', opt_client_secret = Some ''secret'', opt_token = None\<rparr> None None = Inr fc
   \<and> reset (Some \<lparr>opt_client_id = None, opt_client_secret = None, opt_token = Some ''STATIC''\<rparr>) None None fc = Inr fc'
   \<and> token fc' = Some ''STATIC''
   \<and> setAuthorization
        (await_authenticate (Inr \<lparr>data_access_token = ''ISSUED'', data_expires_in = 3600\<rparr>) 1000 1500)
        Map.empty [''data:read''] fc' = Some (Inr hs, fc'')
   \<and> hs ''Authorization'' = Some (Text ''Bearer ISSUED'')
   \<and> hs ''Authorization'' \<noteq> Some (Text ''Bearer STATIC'')"
  by (simp add: ForgeClient_def reset_def Let_def setAuthorization_def await_authenticate_def
      AuthenticationClient_def authenticate_def request_token_def then_token_def settled_value_def
      pending_post_def post_settles_def run_reactions_def cache_key_def)

text \<open>
  C4. \<open>get\<close> with \<open>repeatOn202 = true\<close> against a server answering 202, 202, 200 resolves
  to the body of the 200 response after exactly three requests, but they are sent at
  0, 100 and 200 ms: only the response times separate them, less than \<open>RetryDelay\<close>.
\<close>

theorem get_repeats_without_delay:
  "\<exists>fc fc' n'.
     ForgeClient ''modelderivative/v2''
       \<lparr>opt_client_id = None, opt_client_secret = None, opt_token = Some ''T''\<rparr> None None = Inr fc
   \<and> get (\<lambda>scopes c. None) accepted_twice ''designdata/dXJu/manifest'' Map.empty [''data:read''] True fc
        \<lparr>clock = 0, sent = []\<rparr> = Some (Inr ''ready'', fc', n')
   \<and> map sent_at (sent n') = [0, 100, 200]
   \<and> sent_at (sent n' ! 1) - sent_at (sent n' ! 0) < RetryDelay
   \<and> sent_at (sent n' ! 2) - sent_at (sent n' ! 1) < RetryDelay"
  by (simp add: ForgeClient_def Let_def get_def setAuthorization_def axios_request_def
      accepted_twice_def repeat_on_202.simps RetryDelay_def)

section \<open>Properties of the manifest helper\<close>

lemma concat_map_concat_map:
  "concat (map f (concat (map g xs))) = concat (map (\<lambda>x. concat (map f (g x))) xs)"
  by (induction xs) simp_all

lemma fold_process_collect:
  assumes "\<And>c s. c \<in> set cs \<Longrightarrow> process cb c s = s @ h c"
  shows "fold (\<lambda>child. process cb child) cs s = s @ concat (map h cs)"
  using assms by (induction cs arbitrary: s) simp_all

lemma process_collect:
  "process (\<lambda>n s. (p n, s @ f n)) n s = s @ concat (map f (pruned_preorder p n))"
proof (induction n arbitrary: s)
  case (Node g t r ch)
  show ?case
  proof (cases ch)
    case None
    then show ?thesis by simp
  next
    case (Some cs)
    have "fold (\<lambda>child. process (\<lambda>n s. (p n, s @ f n)) child) cs s'
          = s' @ concat (map (\<lambda>c. concat (map f (pruned_preorder p c))) cs)" for s'
      by (rule fold_process_collect) (use Node Some in auto)
    then show ?thesis using Some by (simp add: concat_map_concat_map)
  qed
qed

lemma traverse_collect:
  "traverse m (\<lambda>n s. (p n, s @ f n)) s
     = s @ concat (map f (concat (map (pruned_preorder p) (concat (map kids (derivatives m))))))"
proof -
  have "fold (\<lambda>derivative s'. case children derivative of
               Some cs \<Rightarrow> fold (\<lambda>child. process (\<lambda>n s. (p n, s @ f n)) child) cs s'
             | None \<Rightarrow> s') ds s
        = s @ concat (map f (concat (map (pruned_preorder p) (concat (map kids ds)))))" for ds
  proof (induction ds arbitrary: s)
    case Nil
    show ?case by simp
  next
    case (Cons d ds)
    have "fold (\<lambda>child. process (\<lambda>n s. (p n, s @ f n)) child) cs s'
          = s' @ concat (map (\<lambda>c. concat (map f (pruned_preorder p c))) cs)" for cs s'
      by (rule fold_process_collect) (simp add: process_collect)
    then show ?case using Cons
      by (cases "children d") (simp_all add: kids_def concat_map_concat_map)
  qed
  then show ?thesis by (simp add: traverse_def)
qed

lemma pruned_preorder_True: "pruned_preorder (\<lambda>n. True) n = preorder n"
proof (induction n)
  case (Node g t r ch)
  then show ?case by (cases ch) (auto intro!: arg_cong[where f = concat] map_cong)
qed

lemma concat_singletons: "concat (map (\<lambda>n. if P n then [n] else []) xs) = filter P xs"
  by (induction xs) simp_all

lemma search_filter: "search m q = filter (matches q) (traversed m)"
proof -
  have cb: "(\<lambda>child ms.
          (True,
           if (isNullOrUndefined (q_guid q) \<or> guid child = q_guid q)
              \<and> (isNullOrUndefined (q_type q) \<or> type child = q_type q)
              \<and> (isNullOrUndefined (q_role q) \<or> role child = q_role q)
           then ms @ [child] else ms))
      = (\<lambda>n s. ((\<lambda>n. True) n, s @ (\<lambda>n. if matches q n then [n] else []) n))"
    by (auto simp: fun_eq_iff matches_def isNullOrUndefined_def)
  have "pruned_preorder (\<lambda>n. True) = preorder"
    by (rule ext) (rule pruned_preorder_True)
  then have tr: "concat (map (pruned_preorder (\<lambda>n. True)) xs) = concat (map preorder xs)" for xs
    by simp
  have "below = (\<lambda>d. concat (map preorder (kids d)))"
    by (simp add: fun_eq_iff below_def)
  then have "traversed m = concat (map preorder (concat (map kids (derivatives m))))"
    by (simp add: traversed_def concat_map_concat_map)
  then show ?thesis
    unfolding search_def cb traverse_collect by (simp add: tr concat_singletons)
qed

text \<open>
  C8. \<open>search\<close> with only \<open>role: "3d"\<close> returns exactly the traversed nodes whose \<open>role\<close>
  is \<open>"3d"\<close>, whatever their \<open>guid\<close> and \<open>type\<close>, in pre-order depth-first order; and
  \<open>traverse\<close> calls its callback on the pre-order walk cut below every node where the
  callback returns false.
\<close>

theorem search_by_role:
  "search m \<lparr>q_guid = None, q_type = None, q_role = Some ''3d''\<rparr>
     = filter (\<lambda>n. role n = Some ''3d'') (traversed m)
   \<and> traverse m (\<lambda>n visited. (p n, visited @ [n])) []
     = concat (map (pruned_preorder p) (concat (map kids (derivatives m))))"
proof -
  have "matches \<lparr>q_guid = None, q_type = None, q_role = Some ''3d''\<rparr> = (\<lambda>n. role n = Some ''3d'')"
    by (simp add: matches_def fun_eq_iff)
  then have A: "search m \<lparr>q_guid = None, q_type = None, q_role = Some ''3d''\<rparr>
     = filter (\<lambda>n. role n = Some ''3d'') (traversed m)"
    by (simp add: search_filter)
  have B: "traverse m (\<lambda>n visited. (p n, visited @ [n])) []
     = concat (map (pruned_preorder p) (concat (map kids (derivatives m))))"
    using traverse_collect[of m p "\<lambda>n. [n]" "[]"] by simp
  from A B show ?thesis by simp
qed


lemma preorder_size: "x \<in> set (preorder n) \<Longrightarrow> size x \<le> size n"
proof (induction n)
  case (Node g t r ch)
  show ?case
  proof (cases ch)
    case None
    with Node.prems show ?thesis by auto
  next
    case (Some cs)
    show ?thesis
    proof (cases "x = Node g t r ch")
      case True
      then show ?thesis by simp
    next
      case False
      with Node.prems Some obtain c where c: "c \<in> set cs" "x \<in> set (preorder c)"
        by auto
      with Node.IH Some have "size x \<le> size c" by auto
      moreover have "size c \<le> size_list size cs"
        using c(1) by (simp add: size_list_estimation')
      ultimately show ?thesis using Some by simp
    qed
  qed
qed

lemma below_size: "x \<in> set (below d) \<Longrightarrow> size x < size d"
proof -
  assume "x \<in> set (below d)"
  then obtain c where c: "c \<in> set (kids d)" "x \<in> set (preorder c)"
    by (auto simp: below_def)
  then have "size x \<le> size c" by (simp add: preorder_size)
  moreover have "size c < size d"
  proof (cases d)
    case (Node g t r ch)
    with c(1) have "\<exists>cs. ch = Some cs \<and> c \<in> set cs"
      by (cases ch) (auto simp: kids_def)
    then obtain cs where cs: "ch = Some cs" "c \<in> set cs"
      by blast
    then have "size c \<le> size_list size cs"
      by (simp add: size_list_estimation')
    moreover have "size_list size cs < size d"
      using Node cs by simp
    ultimately show ?thesis by simp
  qed
  ultimately show ?thesis by simp
qed

lemma pruned_subset_preorder: "set (pruned_preorder p n) \<subseteq> set (preorder n)"
proof (induction n)
  case (Node g t r ch)
  show ?case
  proof (cases ch)
    case None
    have "set (pruned_preorder p (Node g t r None)) \<subseteq> set (preorder (Node g t r None))"
      apply (simp only: pruned_preorder.simps preorder.simps option.case)
      apply (cases "p (Node g t r None)")
       apply simp_all
      done
    then show ?thesis unfolding None .
  next
    case (Some cs)
    with Node have "\<forall>c \<in> set cs. set (pruned_preorder p c) \<subseteq> set (preorder c)"
      by auto
    then have "set (concat (map (pruned_preorder p) cs)) \<subseteq> set (concat (map preorder cs))"
      by fastforce
    then have "set (pruned_preorder p (Node g t r (Some cs))) \<subseteq> set (preorder (Node g t r (Some cs)))"
      apply (simp only: pruned_preorder.simps preorder.simps option.case)
      apply (cases "p (Node g t r (Some cs))")
       apply (simp_all add: subset_insertI2)
      done
    then show ?thesis unfolding Some .
  qed
qed

lemma traverse_no_children:
  "\<forall>d \<in> set ds. kids d = [] \<Longrightarrow>
   fold (\<lambda>derivative s'. case children derivative of
               Some cs \<Rightarrow> fold (\<lambda>child. process cb child) cs s'
             | None \<Rightarrow> s') ds s = s"
  by (induction ds arbitrary: s) (auto simp: kids_def split: option.splits)

text \<open>
  C10. Every node \<open>traverse\<close> passes to the callback, and every node \<open>search\<close> returns,
  lies strictly below one of the manifest's top-level derivative entries; when no
  top-level entry has children the callback is never called (the state is unchanged)
  and \<open>search\<close> returns nothing, whatever the query.
\<close>

theorem traverse_skips_top_level:
  "(\<forall>x \<in> set (traverse m (\<lambda>n visited. (p n, visited @ [n])) []).
      \<exists>d \<in> set (derivatives m). x \<in> set (below d) \<and> size x < size d)
   \<and> (\<forall>x \<in> set (search m q). \<exists>d \<in> set (derivatives m). x \<in> set (below d) \<and> size x < size d)
   \<and> ((\<forall>d \<in> set (derivatives m). kids d = []) \<longrightarrow> traverse m cb s = s \<and> search m q = [])"
proof -
  have in_below: "\<exists>d \<in> set (derivatives m). x \<in> set (below d) \<and> size x < size d"
    if "x \<in> set (traversed m)" for x
    using that by (auto simp: traversed_def below_size)
  have "traverse m (\<lambda>n visited. (p n, visited @ [n])) []
     = concat (map (pruned_preorder p) (concat (map kids (derivatives m))))"
    using traverse_collect[of m p "\<lambda>n. [n]" "[]"] by simp
  moreover have "set (concat (map (pruned_preorder p) (concat (map kids (derivatives m))))) \<subseteq> set (traversed m)"
    using pruned_subset_preorder by (fastforce simp: traversed_def below_def)
  ultimately have A: "\<forall>x \<in> set (traverse m (\<lambda>n visited. (p n, visited @ [n])) []).
      \<exists>d \<in> set (derivatives m). x \<in> set (below d) \<and> size x < size d"
    using in_below by auto
  have B: "\<forall>x \<in> set (search m q). \<exists>d \<in> set (derivatives m). x \<in> set (below d) \<and> size x < size d"
    using in_below by (simp add: search_filter)
  have C: "traverse m cb s = s \<and> search m q = []" if "\<forall>d \<in> set (derivatives m). kids d = []"
    using that by (simp add: traverse_def search_def traverse_no_children)
  from A B C show ?thesis by blast
qed

theorem traverse_skips_top_level_witness:
  "kids (Node (Some ''g1'') (Some ''geometry'') (Some ''3d'') None) = []
   \<and> matches \<lparr>q_guid = None, q_type = None, q_role = Some ''3d''\<rparr>
        (Node (Some ''g1'') (Some ''geometry'') (Some ''3d'') None)
   \<and> search \<lparr>derivatives = [Node (Some ''g1'') (Some ''geometry'') (Some ''3d'') None]\<rparr>
        \<lparr>q_guid = None, q_type = None, q_role = Some ''3d''\<rparr> = []"
proof -
  let ?d = "Node (Some ''g1'') (Some ''geometry'') (Some ''3d'') None"
  let ?q = "\<lparr>q_guid = None, q_type = None, q_role = Some ''3d''\<rparr>"
  have k: "kids ?d = []" by (simp add: kids_def)
  have mt: "matches ?q ?d" by (simp add: matches_def)
  have "\<forall>d \<in> set (derivatives \<lparr>derivatives = [?d]\<rparr>). kids d = []" using k by simp
  with traverse_skips_top_level[of "\<lparr>derivatives = [?d]\<rparr>" "\<lambda>n. True" ?q "\<lambda>n s. (True, s)" "()"]
  have "search \<lparr>derivatives = [?d]\<rparr> ?q = []" by blast
  with k mt show ?thesis by simp
qed

theorem search_by_role_witness:
  "search \<lparr>derivatives = [Node None None (Some ''3d'')
        (Some [Node (Some ''a'') None (Some ''3d'') None,
               Node (Some ''b'') None (Some ''2d'') (Some [Node (Some ''c'') (Some ''view'') (Some ''3d'') None])])]\<rparr>
     \<lparr>q_guid = None, q_type = None, q_role = Some ''3d''\<rparr>
   = [Node (Some ''a'') None (Some ''3d'') None, Node (Some ''c'') (Some ''view'') (Some ''3d'') None]"
  using search_by_role[of "\<lparr>derivatives = [Node None None (Some ''3d'')
        (Some [Node (Some ''a'') None (Some ''3d'') None,
               Node (Some ''b'') None (Some ''2d'') (Some [Node (Some ''c'') (Some ''view'') (Some ''3d'') None])])]\<rparr>"]
  by (simp add: traversed_def below_def kids_def)

section \<open>Properties of the chunked download\<close>

lemma setAuthorization_succeeds:
  assumes "always_authorizes authn"
  shows "\<exists>tok fc'. setAuthorization authn hs scopes fc
           = Some (Inr (hs(''Authorization'' \<mapsto> Text (''Bearer '' @ tok))), fc')"
proof (cases "auth fc")
  case None
  then have "setAuthorization authn hs scopes fc
           = Some (Inr (hs(''Authorization'' \<mapsto> Text (''Bearer '' @ token_text (token fc)))), fc)"
    by (simp add: setAuthorization_def)
  then show ?thesis by blast
next
  case (Some a)
  from assms obtain tok a' where "authn scopes a = Some (Inr tok, a')"
    unfolding always_authorizes_def by blast
  with Some have "setAuthorization authn hs scopes fc
           = Some (Inr (hs(''Authorization'' \<mapsto> Text (''Bearer '' @ access_token tok))), fc\<lparr>auth := Some a'\<rparr>)"
    by (simp add: setAuthorization_def)
  then show ?thesis by blast
qed

lemma repeat_on_202_off:
  "repeat_on_202 server endpoint config False resp n = Some (Inr (data resp), n)"
  by (subst repeat_on_202.simps) simp

lemma getBuffer_range:
  assumes A: "always_authorizes authn"
    and r: "0 \<le> lo" "lo \<le> hi" "lo < int (length content)"
  shows "\<exists>fc' n' req. getBuffer authn (resource_server content) url [''Range'' \<mapsto> Bytes lo hi] scopes False fc n
            = Some (Inr (take (nat (hi - lo + 1)) (drop (nat lo) content)), fc', n')
          \<and> sent n' = sent n @ [req] \<and> req_method req = GET \<and> req_url req = url
          \<and> req_headers req ''Range'' = Some (Bytes lo hi)"
proof -
  from setAuthorization_succeeds[OF A] obtain tok fc' where
    sa: "setAuthorization authn [''Range'' \<mapsto> Bytes lo hi] scopes fc
           = Some (Inr ([''Range'' \<mapsto> Bytes lo hi, ''Authorization'' \<mapsto> Text (''Bearer '' @ tok)]), fc')"
    by blast
  show ?thesis
    using r unfolding getBuffer_def sa
    by (simp add: axios_request_def resource_server_def Let_def repeat_on_202_off)
qed

lemma read_loop_done:
  "\<not> s < L \<Longrightarrow> read_loop authn server url C L s ys fc n = Some (Inr s, ys, fc, n)"
  by (subst read_loop.simps) simp

lemma read_loop_step:
  assumes A: "always_authorizes authn" and C: "0 < C"
    and s: "0 \<le> s" "s < int (length content)"
  shows "\<exists>fc' n' req.
           read_loop authn (resource_server content) url C (int (length content)) s ys fc n
             = read_loop authn (resource_server content) url C (int (length content))
                 (s + min C (int (length content) - s))
                 (ys @ [take (nat C) (drop (nat s) content)]) fc' n'
         \<and> sent n' = sent n @ [req] \<and> req_method req = GET \<and> req_url req = url
         \<and> req_headers req ''Range'' = Some (Bytes s (s + min C (int (length content) - s) - 1))"
proof -
  let ?L = "int (length content)"
  let ?k = "min C (?L - s)"
  from setAuthorization_succeeds[OF A] obtain tok fc1 where
    sa: "setAuthorization authn Map.empty ReadTokenScopes fc
           = Some (Inr ([''Authorization'' \<mapsto> Text (''Bearer '' @ tok)]), fc1)"
    by blast
  have k: "0 < ?k" using C s by simp
  from getBuffer_range[OF A, of s "s + ?k - 1" content url ReadTokenScopes fc1 n] s k
  obtain fc2 n2 req where
    gb: "getBuffer authn (resource_server content) url [''Range'' \<mapsto> Bytes s (s + ?k - 1)] ReadTokenScopes False fc1 n
            = Some (Inr (take (nat (s + ?k - 1 - s + 1)) (drop (nat s) content)), fc2, n2)"
    and lg: "sent n2 = sent n @ [req]" "req_method req = GET" "req_url req = url"
       "req_headers req ''Range'' = Some (Bytes s (s + ?k - 1))"
    by auto
  have tk: "take (nat (s + ?k - 1 - s + 1)) (drop (nat s) content) = take (nat C) (drop (nat s) content)"
    using s C by (auto simp: min_def)
  have "read_loop authn (resource_server content) url C ?L s ys fc n
        = read_loop authn (resource_server content) url C ?L (s + ?k)
            (ys @ [take (nat C) (drop (nat s) content)]) fc2 n2"
    by (subst read_loop.simps) (use s in \<open>simp add: sa gb[unfolded tk] Let_def\<close>)
  with lg show ?thesis by blast
qed


lemma remaining_last:
  assumes "0 < (C::int)" "s < L" "L - s \<le> C"
  shows "nat (- ((s - L) div C)) = Suc 0"
proof -
  have "s - L = C * (- 1) + (s - L + C)" by simp
  moreover have "0 \<le> s - L + C" "s - L + C < C" using assms by auto
  ultimately have "(s - L) div C = - 1" by (rule int_div_pos_eq)
  then show ?thesis by simp
qed

lemma remaining_more:
  assumes "0 < (C::int)" "C < L - s"
  shows "nat (- ((s - L) div C)) = Suc (nat (- ((s + C - L) div C)))"
proof -
  have "s + C - L = (s - L) + C" by simp
  then have "(s + C - L) div C = (s - L) div C + 1"
    using assms(1) by (simp only: div_add_self2)
  moreover have "(s + C - L) div C < 0"
    using assms by (simp add: pos_imp_zdiv_neg_iff)
  ultimately show ?thesis by simp
qed

lemma read_loop_resource:
  assumes A: "always_authorizes authn" and C: "0 < C"
  shows "0 \<le> s \<Longrightarrow> s \<le> int (length content) \<Longrightarrow>
    \<exists>fc' n'. read_loop authn (resource_server content) url C (int (length content)) s ys fc n
        = Some (Inr (int (length content)),
                ys @ map (\<lambda>i. take (nat C) (drop (nat s + i * nat C) content))
                       [0..<nat (- ((s - int (length content)) div C))],
                fc', n')
      \<and> map (\<lambda>r. (req_method r, req_url r, req_headers r ''Range'')) (sent n')
        = map (\<lambda>r. (req_method r, req_url r, req_headers r ''Range'')) (sent n)
          @ map (\<lambda>i. (GET, url, Some (Bytes (s + int i * C)
                                         (min (int (length content)) (s + (int i + 1) * C) - 1))))
              [0..<nat (- ((s - int (length content)) div C))]"
proof (induction "nat (int (length content) - s)" arbitrary: s ys fc n rule: less_induct)
  case less
  let ?L = "int (length content)"
  show ?case
  proof (cases "s < ?L")
    case False
    with less.prems have "s = ?L" by simp
    then show ?thesis by (simp add: read_loop_done)
  next
    case True
    let ?s' = "s + min C (?L - s)"
    let ?k' = "nat (- ((?s' - ?L) div C))"
    from read_loop_step[OF A C less.prems(1) True, of url ys fc n]
    obtain fc1 n1 req where
      step: "read_loop authn (resource_server content) url C ?L s ys fc n
             = read_loop authn (resource_server content) url C ?L ?s'
                 (ys @ [take (nat C) (drop (nat s) content)]) fc1 n1"
      and lg: "sent n1 = sent n @ [req]" "req_method req = GET" "req_url req = url"
        "req_headers req ''Range'' = Some (Bytes s (?s' - 1))"
      by blast
    have s': "0 \<le> ?s'" "?s' \<le> ?L" "nat (?L - ?s') < nat (?L - s)"
      using True C less.prems by auto
    from less.hyps[OF s'(3) s'(1) s'(2), of "ys @ [take (nat C) (drop (nat s) content)]" fc1 n1]
    obtain fc' n' where
      res: "read_loop authn (resource_server content) url C ?L ?s'
              (ys @ [take (nat C) (drop (nat s) content)]) fc1 n1
            = Some (Inr ?L,
                (ys @ [take (nat C) (drop (nat s) content)])
                  @ map (\<lambda>i. take (nat C) (drop (nat ?s' + i * nat C) content)) [0..<?k'],
                fc', n')"
      and lg': "map (\<lambda>r. (req_method r, req_url r, req_headers r ''Range'')) (sent n')
        = map (\<lambda>r. (req_method r, req_url r, req_headers r ''Range'')) (sent n1)
          @ map (\<lambda>i. (GET, url, Some (Bytes (?s' + int i * C) (min ?L (?s' + (int i + 1) * C) - 1))))
              [0..<?k']"
      by blast
    have shift: "nat (- ((s - ?L) div C)) = Suc ?k'
        \<and> (\<forall>i < ?k'. nat ?s' + i * nat C = nat s + Suc i * nat C
                     \<and> ?s' + int i * C = s + int (Suc i) * C)"
    proof (cases "?L - s \<le> C")
      case True
      then have "?s' = ?L" by simp
      then have "?k' = 0" by simp
      moreover have "nat (- ((s - ?L) div C)) = Suc 0"
        using C \<open>s < ?L\<close> True by (rule remaining_last)
      ultimately show ?thesis by simp
    next
      case False
      then have e: "?s' = s + C" by simp
      have "nat (- ((s - ?L) div C)) = Suc (nat (- ((s + C - ?L) div C)))"
        using C False by (intro remaining_more) simp_all
      moreover have "nat (s + C) = nat s + nat C"
        using C less.prems(1) by (simp add: nat_add_distrib)
      ultimately show ?thesis unfolding e by (simp add: algebra_simps)
    qed
    then have K: "nat (- ((s - ?L) div C)) = Suc ?k'"
      and sh: "\<And>i. i < ?k' \<Longrightarrow> nat ?s' + i * nat C = nat s + Suc i * nat C"
      and sh2: "\<And>i. i < ?k' \<Longrightarrow> ?s' + int i * C = s + int (Suc i) * C"
      by blast+
    have chunks: "map (\<lambda>i. take (nat C) (drop (nat s + i * nat C) content)) [0..<Suc ?k']
        = take (nat C) (drop (nat s) content)
          # map (\<lambda>i. take (nat C) (drop (nat ?s' + i * nat C) content)) [0..<?k']"
      unfolding map_upt_Suc using sh by (simp del: mult_Suc)
    have first: "min ?L (s + C) - 1 = ?s' - 1"
      by (simp add: min_def)
    have ranges: "map (\<lambda>i. (GET, url, Some (Bytes (s + int i * C) (min ?L (s + (int i + 1) * C) - 1))))
              [0..<Suc ?k']
        = (GET, url, Some (Bytes s (?s' - 1)))
          # map (\<lambda>i. (GET, url, Some (Bytes (?s' + int i * C) (min ?L (?s' + (int i + 1) * C) - 1))))
              [0..<?k']"
      unfolding map_upt_Suc using sh2 first by (simp add: algebra_simps del: of_nat_Suc)
    show ?thesis
      unfolding step res K chunks ranges using lg lg' by simp
  qed
qed


lemma chunk_count_cases:
  assumes "0 < C" "0 \<le> L"
  shows "int (chunk_count L C) = (if L mod C = 0 then L div C else L div C + 1)"
proof -
  have "0 \<le> L div C" using assms by (simp add: pos_imp_zdiv_nonneg_iff)
  then show ?thesis using assms by (simp add: chunk_count_def zdiv_zminus1_eq_if)
qed

lemma chunk_count_ceiling:
  "0 < C \<Longrightarrow> 0 \<le> L \<Longrightarrow> int (chunk_count L C) = \<lceil>real_of_int L / real_of_int C\<rceil>"
proof -
  assume a: "0 < C" "0 \<le> L"
  then have "(- L) div C \<le> 0"
    by (intro div_nonpos_pos_le0) simp_all
  then show ?thesis by (simp add: chunk_count_def ceiling_divide_eq_div)
qed

lemma concat_pieces_take:
  "concat (map (\<lambda>i. take c (drop (i * c) xs)) [0..<k]) = take (k * c) xs"
proof (induction k)
  case 0
  show ?case by simp
next
  case (Suc k)
  have "take (k * c + c) xs = take (k * c) xs @ take c (drop (k * c) xs)"
    by (simp add: take_add)
  with Suc show ?case by (simp add: add.commute)
qed

lemma chunk_count_covers:
  assumes "0 < C" "0 \<le> L"
  shows "L \<le> int (chunk_count L C) * C"
    and "0 < L \<Longrightarrow> (int (chunk_count L C) - 1) * C < L"
    and "0 < L \<Longrightarrow> L - (int (chunk_count L C) - 1) * C = (if L mod C = 0 then C else L mod C)"
proof -
  have dm: "L = L div C * C + L mod C" by simp
  have m: "0 \<le> L mod C" "L mod C < C" using assms(1) by simp_all
  show "L \<le> int (chunk_count L C) * C"
  proof (cases "L mod C = 0")
    case True
    then show ?thesis using dm chunk_count_cases[OF assms] by simp
  next
    case False
    then have "int (chunk_count L C) * C = L div C * C + C"
      using chunk_count_cases[OF assms] by (simp add: algebra_simps)
    then show ?thesis using dm m by linarith
  qed
  show "(int (chunk_count L C) - 1) * C < L" if "0 < L"
  proof (cases "L mod C = 0")
    case True
    then have "(int (chunk_count L C) - 1) * C = L - C"
      using dm chunk_count_cases[OF assms] by (simp add: algebra_simps)
    then show ?thesis using assms(1) by simp
  next
    case False
    then have "(int (chunk_count L C) - 1) * C = L div C * C"
      using chunk_count_cases[OF assms] by simp
    then show ?thesis using dm m False by linarith
  qed
  show "L - (int (chunk_count L C) - 1) * C = (if L mod C = 0 then C else L mod C)" if "0 < L"
  proof (cases "L mod C = 0")
    case True
    then have "(int (chunk_count L C) - 1) * C = L - C"
      using dm chunk_count_cases[OF assms] by (simp add: algebra_simps)
    then show ?thesis using True by simp
  next
    case False
    then have "(int (chunk_count L C) - 1) * C = L div C * C"
      using chunk_count_cases[OF assms] by simp
    then show ?thesis using dm False by (simp add: algebra_simps)
  qed
qed

lemma concat_pieces: "0 < C \<Longrightarrow> concat (pieces content C) = content"
proof -
  assume C: "0 < C"
  have "int (length content) \<le> int (chunk_count (int (length content)) C) * C"
    using C by (intro chunk_count_covers(1)) simp_all
  also have "\<dots> = int (chunk_count (int (length content)) C * nat C)"
    using C by simp
  finally have "length content \<le> chunk_count (int (length content)) C * nat C"
    by linarith
  then show ?thesis by (simp add: pieces_def concat_pieces_take)
qed

lemma length_pieces: "length (pieces content C) = chunk_count (int (length content)) C"
  by (simp add: pieces_def)

lemma piece_sizes:
  assumes C: "0 < C" and i: "i < length (pieces content C)"
  shows "int (length (pieces content C ! i))
         = (if Suc i < length (pieces content C) then C
            else if int (length content) mod C = 0 then C else int (length content) mod C)"
proof -
  let ?L = "int (length content)"
  let ?k = "chunk_count ?L C"
  have k: "i < ?k" using i by (simp add: pieces_def)
  then have Lpos: "0 < ?L"
    using C by (cases "content = []") (auto simp: chunk_count_def)
  have last: "(int ?k - 1) * C < ?L" "?L - (int ?k - 1) * C = (if ?L mod C = 0 then C else ?L mod C)"
    using chunk_count_covers(2,3)[OF C _ Lpos] by simp_all
  have "int i \<le> int ?k - 1" using k by simp
  then have "int i * C \<le> (int ?k - 1) * C" using C by (simp only: mult_right_mono)
  with last(1) have below: "int i * C < ?L" by simp
  have "int (i * nat C) = int i * C" using C by simp
  with below have inside: "i * nat C < length content" by linarith
  have "length (pieces content C ! i) = min (nat C) (length content - i * nat C)"
    using k by (simp add: pieces_def)
  then have "int (length (pieces content C ! i)) = min C (int (length content - i * nat C))"
    using C by (auto simp: min_def)
  also have "int (length content - i * nat C) = ?L - int i * C"
    using inside C by (simp add: of_nat_diff)
  finally have len: "int (length (pieces content C ! i)) = min C (?L - int i * C)" .
  show ?thesis
  proof (cases "Suc i < ?k")
    case True
    then have "int i + 1 \<le> int ?k - 1" by simp
    then have "(int i + 1) * C \<le> (int ?k - 1) * C" using C by (simp only: mult_right_mono)
    with last(1) have "C \<le> ?L - int i * C" by (simp add: algebra_simps)
    with len True show ?thesis by (simp add: pieces_def)
  next
    case False
    with k have e: "int i = int ?k - 1" by simp
    have m: "?L mod C \<le> C" using pos_mod_bound[of C ?L] C by linarith
    have eq: "?L - int i * C = (if ?L mod C = 0 then C else ?L mod C)"
      using last(2) unfolding e .
    have "?L - int i * C \<le> C"
    proof (cases "?L mod C = 0")
      case True
      with eq show ?thesis by simp
    next
      case False
      with eq have "?L - int i * C = ?L mod C" by simp
      with m show ?thesis by (simp only:)
    qed
    with len have "int (length (pieces content C ! i)) = ?L - (int ?k - 1) * C"
      unfolding e by simp
    with last(2) False show ?thesis by (simp add: pieces_def)
  qed
qed

text \<open>
  C5. For a resource of length \<open>L\<close> and \<open>maxChunkSize = C > 0\<close> (with an authorization that
  always resolves, and a server that honours byte ranges), \<open>getDerivativeChunked\<close> ends
  with \<open>streamedBytes = L\<close> after one \<open>HEAD\<close> request and \<open>ceil(L / C)\<close> \<open>GET\<close> requests, the
  \<open>i\<close>-th for the inclusive range from \<open>i * C\<close> to \<open>i * C + min(C, L - i * C) - 1\<close>; every
  chunk has \<open>C\<close> bytes except the last, which has \<open>L mod C\<close> bytes (\<open>C\<close> when that is 0); and
  the chunks concatenated are the resource.
\<close>

theorem chunked_download_covers_resource:
  assumes C: "0 < C" and A: "always_authorizes authn"
  shows "\<exists>fc' n'.
      getDerivativeChunked authn (resource_server content) modelUrn derivativeUrn C fc n
        = Some (Inr (int (length content)), pieces content C, fc', n')
    \<and> map (\<lambda>r. (req_method r, req_url r, req_headers r ''Range'')) (sent n')
        = map (\<lambda>r. (req_method r, req_url r, req_headers r ''Range'')) (sent n)
          @ (HEAD, derivative_url (region fc) modelUrn derivativeUrn, None)
          # map (\<lambda>i. (GET, derivative_url (region fc) modelUrn derivativeUrn,
                        Some (Bytes (int i * C)
                                    (int i * C + min C (int (length content) - int i * C) - 1))))
              [0..<chunk_count (int (length content)) C]
    \<and> int (length (pieces content C)) = \<lceil>real_of_int (int (length content)) / real_of_int C\<rceil>
    \<and> (\<forall>i < length (pieces content C).
          int (length (pieces content C ! i))
            = (if Suc i < length (pieces content C) then C
               else if int (length content) mod C = 0 then C else int (length content) mod C))
    \<and> concat (pieces content C) = content"
proof -
  let ?L = "int (length content)"
  let ?url = "derivative_url (region fc) modelUrn derivativeUrn"
  let ?proj = "\<lambda>r. (req_method r, req_url r, req_headers r ''Range'')"
  from setAuthorization_succeeds[OF A, of Map.empty ReadTokenScopes fc] obtain h fc1 where
    sa: "setAuthorization authn Map.empty ReadTokenScopes fc = Some (Inr h, fc1)"
    and h: "h ''Range'' = None"
    by auto
  have "\<exists>n1. axios_request (resource_server content) HEAD ?url h n
         = (Inr \<lparr>status = 200, content_length = Some ?L, data = []\<rparr>, n1)
       \<and> map ?proj (sent n1) = map ?proj (sent n) @ [(HEAD, ?url, None)]"
    by (simp add: axios_request_def resource_server_def Let_def h)
  then obtain n1 where
    hd: "axios_request (resource_server content) HEAD ?url h n
         = (Inr \<lparr>status = 200, content_length = Some ?L, data = []\<rparr>, n1)"
    and n1: "map ?proj (sent n1) = map ?proj (sent n) @ [(HEAD, ?url, None)]"
    by blast
  from read_loop_resource[OF A C, of 0 content ?url "[]" fc1 n1]
  obtain fc' n' where
    lp: "read_loop authn (resource_server content) ?url C ?L 0 [] fc1 n1
        = Some (Inr ?L, map (\<lambda>i. take (nat C) (drop (i * nat C) content)) [0..<nat (- ((- ?L) div C))], fc', n')"
    and lg: "map ?proj (sent n')
        = map ?proj (sent n1)
          @ map (\<lambda>i. (GET, ?url, Some (Bytes (int i * C) (min ?L ((int i + 1) * C) - 1))))
              [0..<nat (- ((- ?L) div C))]"
    by auto
  have rng: "min ?L ((int i + 1) * C) - 1 = int i * C + min C (?L - int i * C) - 1" for i
    by (simp add: min_def algebra_simps)
  have run: "getDerivativeChunked authn (resource_server content) modelUrn derivativeUrn C fc n
        = Some (Inr ?L, pieces content C, fc', n')"
    by (simp add: getDerivativeChunked_def Let_def sa hd lp pieces_def chunk_count_def)
  have log: "map ?proj (sent n')
        = map ?proj (sent n) @ (HEAD, ?url, None)
          # map (\<lambda>i. (GET, ?url, Some (Bytes (int i * C) (int i * C + min C (?L - int i * C) - 1))))
              [0..<chunk_count ?L C]"
    unfolding lg n1 by (simp add: rng chunk_count_def)
  have cnt: "int (length (pieces content C)) = \<lceil>real_of_int ?L / real_of_int C\<rceil>"
    using C by (simp add: length_pieces chunk_count_ceiling)
  have sz: "\<forall>i < length (pieces content C).
          int (length (pieces content C ! i))
            = (if Suc i < length (pieces content C) then C
               else if ?L mod C = 0 then C else ?L mod C)"
    using piece_sizes[OF C] by blast
  from run log cnt sz concat_pieces[OF C] show ?thesis by blast
qed


theorem chunked_download_covers_resource_witness:
  "(0::int) < 4
   \<and> always_authorizes (\<lambda>scopes a. Some (Inr \<lparr>access_token = ''t'', expires_in = 60\<rparr>, a))
   \<and> pieces ''abcdefghij'' 4 = [''abcd'', ''efgh'', ''ij'']
   \<and> (\<exists>fc' n'.
        getDerivativeChunked (\<lambda>scopes a. Some (Inr \<lparr>access_token = ''t'', expires_in = 60\<rparr>, a))
          (resource_server ''abcdefghij'') ''dXJu'' ''output.svf'' 4
          \<lparr>auth = None, token = Some ''T'', root = ''modelderivative/v2'', host = DefaultHost,
           region = US,
           axios = \<lparr>baseURL = DefaultHost @ ''/modelderivative/v2/'', maxContentLength = None,
                    maxBodyLength = None\<rparr>\<rparr>
          \<lparr>clock = 0, sent = []\<rparr>
        = Some (Inr 10, [''abcd'', ''efgh'', ''ij''], fc', n'))"
proof -
  have c: "(0::int) < 4" by simp
  have a: "always_authorizes (\<lambda>scopes a. Some (Inr \<lparr>access_token = ''t'', expires_in = 60\<rparr>, a))"
    by (simp add: always_authorizes_def)
  have p: "pieces ''abcdefghij'' 4 = [''abcd'', ''efgh'', ''ij'']"
    by code_simp
  from chunked_download_covers_resource[OF c a, of "''abcdefghij''" "''dXJu''" "''output.svf''"
      "\<lparr>auth = None, token = Some ''T'', root = ''modelderivative/v2'', host = DefaultHost,
           region = US,
           axios = \<lparr>baseURL = DefaultHost @ ''/modelderivative/v2/'', maxContentLength = None,
                    maxBodyLength = None\<rparr>\<rparr>" "\<lparr>clock = 0, sent = []\<rparr>"]
  obtain fc' n' where
    "getDerivativeChunked (\<lambda>scopes a. Some (Inr \<lparr>access_token = ''t'', expires_in = 60\<rparr>, a))
          (resource_server ''abcdefghij'') ''dXJu'' ''output.svf'' 4
          \<lparr>auth = None, token = Some ''T'', root = ''modelderivative/v2'', host = DefaultHost,
           region = US,
           axios = \<lparr>baseURL = DefaultHost @ ''/modelderivative/v2/'', maxContentLength = None,
                    maxBodyLength = None\<rparr>\<rparr>
          \<lparr>clock = 0, sent = []\<rparr>
        = Some (Inr (int (length ''abcdefghij'')), pieces ''abcdefghij'' 4, fc', n')"
    by blast
  then show ?thesis using c a p by auto
qed

end
